theory Spec2Isabelle
  imports Main
begin

section \<open>Python strings\<close>

text \<open>
  A Python \<open>str\<close> is a sequence of code points. It is modelled as a \<open>string\<close>, one
  \<open>char\<close> per code point, which covers the code points 0 to 255 (Latin-1); \<open>length\<close>
  is then Python's \<open>len\<close>. The character classes below are those of CPython's
  Unicode database restricted to that range.
\<close>

definition cp :: "char \<Rightarrow> nat" where
  "cp c = of_char c"

definition newline :: char where
  "newline = CHR 0x0A"

text \<open>\<open>str.isspace\<close> on one character; also the class \<open>\s\<close> of \<open>re\<close> and the
  separators of \<open>str.split()\<close> and \<open>str.strip()\<close>.\<close>

definition isspace :: "char \<Rightarrow> bool" where
  "isspace c = (let n = cp c in (9 \<le> n \<and> n \<le> 13) \<or> (28 \<le> n \<and> n \<le> 32) \<or> n = 133 \<or> n = 160)"

text \<open>The class \<open>\d\<close> of \<open>re\<close>: the decimal digits.\<close>

definition isdigit :: "char \<Rightarrow> bool" where
  "isdigit c = (let n = cp c in 48 \<le> n \<and> n \<le> 57)"

text \<open>The class \<open>[A-Z]\<close> of \<open>re\<close>.\<close>

definition is_ascii_capital :: "char \<Rightarrow> bool" where
  "is_ascii_capital c = (let n = cp c in 65 \<le> n \<and> n \<le> 90)"

text \<open>Upper-case and lower-case characters (the Unicode properties Uppercase and
  Lowercase).\<close>

definition char_isupper :: "char \<Rightarrow> bool" where
  "char_isupper c = (let n = cp c in (65 \<le> n \<and> n \<le> 90) \<or> (192 \<le> n \<and> n \<le> 214) \<or> (216 \<le> n \<and> n \<le> 222))"

definition char_islower :: "char \<Rightarrow> bool" where
  "char_islower c = (let n = cp c in (97 \<le> n \<and> n \<le> 122) \<or> n = 170 \<or> n = 181 \<or> n = 186
     \<or> (223 \<le> n \<and> n \<le> 246) \<or> (248 \<le> n \<and> n \<le> 255))"

definition char_lower :: "char \<Rightarrow> char" where
  "char_lower c = (if char_isupper c then char_of (cp c + 32) else c)"

text \<open>\<open>str.lower\<close>.\<close>

definition lower :: "string \<Rightarrow> string" where
  "lower s = map char_lower s"

text \<open>\<open>str.isupper\<close>: no lower-case character and at least one upper-case one.\<close>

definition isupper :: "string \<Rightarrow> bool" where
  "isupper s = (list_all (\<lambda>c. \<not> char_islower c) s \<and> list_ex char_isupper s)"

text \<open>\<open>str.capitalize\<close>: the first character in title case, the rest in lower
  case. The title case of a character that is not lower-case is the character itself;
  the source capitalises only words for which \<open>isupper\<close> holds, so the first character
  is never lower-case there, and lower-case first characters are mapped for a-z and
  the Latin-1 letters whose capital is in the range.\<close>

definition char_title :: "char \<Rightarrow> char" where
  "char_title c = (let n = cp c in
     if (97 \<le> n \<and> n \<le> 122) \<or> (224 \<le> n \<and> n \<le> 246) \<or> (248 \<le> n \<and> n \<le> 254)
     then char_of (n - 32) else c)"

definition capitalize :: "string \<Rightarrow> string" where
  "capitalize w = (case w of [] \<Rightarrow> [] | c # cs \<Rightarrow> char_title c # lower cs)"

text \<open>\<open>str.strip()\<close>: leading and trailing whitespace removed.\<close>

definition strip :: "string \<Rightarrow> string" where
  "strip s = rev (dropWhile isspace (rev (dropWhile isspace s)))"

text \<open>\<open>s.split(sep)\<close> for a one-character separator: always at least one piece.\<close>

fun split_char :: "char \<Rightarrow> string \<Rightarrow> string list" where
  "split_char sep [] = [[]]"
| "split_char sep (c # cs) =
     (if c = sep then [] # split_char sep cs
      else (case split_char sep cs of [] \<Rightarrow> [[c]] | w # ws \<Rightarrow> (c # w) # ws))"

text \<open>\<open>s.split()\<close>: the maximal runs of non-whitespace characters. \<open>cur\<close> is the
  word being read.\<close>

fun split_ws_from :: "string \<Rightarrow> string \<Rightarrow> string list" where
  "split_ws_from cur [] = (if cur = [] then [] else [cur])"
| "split_ws_from cur (c # cs) =
     (if isspace c then (if cur = [] then split_ws_from [] cs else cur # split_ws_from [] cs)
      else split_ws_from (cur @ [c]) cs)"

definition split_ws :: "string \<Rightarrow> string list" where
  "split_ws s = split_ws_from [] s"

text \<open>\<open>sep.join(xs)\<close>.\<close>

fun join :: "string \<Rightarrow> string list \<Rightarrow> string" where
  "join sep [] = []"
| "join sep [x] = x"
| "join sep (x # y # ys) = x @ sep @ join sep (y # ys)"

definition startswith :: "string \<Rightarrow> string \<Rightarrow> bool" where
  "startswith s p = (take (length p) s = p)"

definition endswith :: "string \<Rightarrow> string \<Rightarrow> bool" where
  "endswith s p = (length p \<le> length s \<and> drop (length s - length p) s = p)"

text \<open>\<open>needle in hay\<close> on strings.\<close>

fun is_substring :: "string \<Rightarrow> string \<Rightarrow> bool" where
  "is_substring needle [] = (needle = [])"
| "is_substring needle (h # t) = (startswith (h # t) needle \<or> is_substring needle t)"

section \<open>The regular expressions of the source\<close>

text \<open>
  Each pattern is a matcher that, applied to the text at the current position, returns
  the text after the match (\<open>None\<close> when the pattern does not match there). The
  matchers follow what Python's backtracking engine finds; for these patterns the match
  at a position is unique. No pattern matches the empty string.
\<close>

text \<open>\<open>\[\d+\]\<close>\<close>

definition match_citation :: "string \<Rightarrow> string option" where
  "match_citation s =
     (case s of [] \<Rightarrow> None
      | c # cs \<Rightarrow>
          if c = CHR ''[''
          then (case dropWhile isdigit cs of [] \<Rightarrow> None
                | c' # r \<Rightarrow> if takeWhile isdigit cs \<noteq> [] \<and> c' = CHR '']'' then Some r else None)
          else None)"

text \<open>\<open>\d{4}\<close> somewhere in a text.\<close>

fun has_four_digits :: "string \<Rightarrow> bool" where
  "has_four_digits (a # b # c # d # r) =
     ((isdigit a \<and> isdigit b \<and> isdigit c \<and> isdigit d) \<or> has_four_digits (b # c # d # r))"
| "has_four_digits _ = False"

text \<open>\<open>\([^)]*\d{4}[^)]*\)\<close>: neither \<open>[^)]*\<close> nor \<open>\d{4}\<close> crosses a closing
  parenthesis, so a match ends at the first one after the opening parenthesis.\<close>

definition match_year_paren :: "string \<Rightarrow> string option" where
  "match_year_paren s =
     (case s of [] \<Rightarrow> None
      | c # cs \<Rightarrow>
          if c = CHR ''(''
          then (case dropWhile (\<lambda>x. x \<noteq> CHR '')'') cs of [] \<Rightarrow> None
                | c' # r \<Rightarrow> if has_four_digits (takeWhile (\<lambda>x. x \<noteq> CHR '')'') cs) then Some r else None)
          else None)"

text \<open>\<open>et al\.?\<close>\<close>

definition match_et_al :: "string \<Rightarrow> string option" where
  "match_et_al s =
     (if startswith s ''et al''
      then (case drop 5 s of [] \<Rightarrow> Some []
            | c # r \<Rightarrow> if c = CHR ''.'' then Some r else Some (c # r))
      else None)"

text \<open>\<open>re.sub(pattern, repl, s)\<close>: the leftmost non-overlapping matches are replaced.
  A match that consumes nothing does not occur with the patterns above; the guard makes
  the scan advance in any case.\<close>

function re_sub :: "(string \<Rightarrow> string option) \<Rightarrow> string \<Rightarrow> string \<Rightarrow> string" where
  "re_sub m repl [] = []"
| "re_sub m repl (c # cs) =
     (case m (c # cs) of
        None \<Rightarrow> c # re_sub m repl cs
      | Some r \<Rightarrow> if length r \<le> length cs then repl @ re_sub m repl r else c # re_sub m repl cs)"
  by pat_completeness auto
termination
  by (relation "measure (\<lambda>(m, repl, s). length s)") auto

text \<open>\<open>re.split(r'[.!?]+', s)\<close>: the pieces between the runs of sentence-ending
  punctuation, empty pieces included. \<open>insep\<close> says that the last character read was
  punctuation, \<open>cur\<close> is the piece being read.\<close>

definition is_sentence_end :: "char \<Rightarrow> bool" where
  "is_sentence_end c = (c = CHR ''.'' \<or> c = CHR ''!'' \<or> c = CHR ''?'')"

fun re_split_from :: "bool \<Rightarrow> string \<Rightarrow> string \<Rightarrow> string list" where
  "re_split_from insep cur [] = [cur]"
| "re_split_from insep cur (c # cs) =
     (if is_sentence_end c
      then (if insep then re_split_from True cur cs else cur # re_split_from True [] cs)
      else re_split_from False (cur @ [c]) cs)"

definition re_split_sentences :: "string \<Rightarrow> string list" where
  "re_split_sentences s = re_split_from False [] s"

text \<open>\<open>re.match(r'^\d+\.?\s+[A-Z]', line)\<close>: the digits, the optional dot and the
  whitespace are each taken as far as they go, since the character after each of them
  cannot belong to it.\<close>

definition match_numbered :: "string \<Rightarrow> bool" where
  "match_numbered line =
     (let r1 = dropWhile isdigit line;
          r2 = (case r1 of [] \<Rightarrow> [] | c # r \<Rightarrow> if c = CHR ''.'' then r else c # r)
      in takeWhile isdigit line \<noteq> [] \<and> takeWhile isspace r2 \<noteq> [] \<and>
         (case dropWhile isspace r2 of [] \<Rightarrow> False | c # r \<Rightarrow> is_ascii_capital c))"

text \<open>\<open>re.sub(r'^\d+\.?\s*', '', title)\<close>: the leading numbering removed.\<close>

definition strip_numbering :: "string \<Rightarrow> string" where
  "strip_numbering t =
     (if takeWhile isdigit t = [] then t
      else (let r1 = dropWhile isdigit t;
                r2 = (case r1 of [] \<Rightarrow> [] | c # r \<Rightarrow> if c = CHR ''.'' then r else c # r)
            in dropWhile isspace r2))"

section \<open>pdf_extractor.py\<close>

record Section =
  sec_title :: string
  sec_content :: string

record PDFExtractor =
  pdf_path :: string
  text_content :: string
  sections :: "Section list"

definition PDFExtractor_init :: "string \<Rightarrow> PDFExtractor" where
  "PDFExtractor_init path = \<lparr>pdf_path = path, text_content = [], sections = []\<rparr>"

text \<open>What reading the PDF gives: the texts of all pages, or the texts of the pages
  read before an exception was raised (none when the file cannot be opened).\<close>

datatype pdf_read = Pages "string list" | Raised "string list"

text \<open>\<open>extract_text\<close> appends each page's text and a newline to \<open>text_content\<close>, and
  returns \<open>text_content\<close>, or the empty string after an exception.\<close>

definition extract_text :: "PDFExtractor \<Rightarrow> pdf_read \<Rightarrow> PDFExtractor \<times> string" where
  "extract_text ex r =
     (case r of
        Pages ps \<Rightarrow>
          (let ex' = ex\<lparr>text_content := foldl (\<lambda>t p. t @ p @ [newline]) (text_content ex) ps\<rparr>
           in (ex', text_content ex'))
      | Raised ps \<Rightarrow>
          (ex\<lparr>text_content := foldl (\<lambda>t p. t @ p @ [newline]) (text_content ex) ps\<rparr>, []))"

definition header_keywords :: "string list" where
  "header_keywords = [''Introduction'', ''Overview'', ''Conclusion'', ''Summary'',
                      ''Properties'', ''Applications'', ''Technology'', ''Performance'']"

fun keyword_loop :: "string list \<Rightarrow> string \<Rightarrow> bool" where
  "keyword_loop [] line = False"
| "keyword_loop (keyword # ks) line =
     (if is_substring (lower keyword) (lower line) \<and> length line < 100 then True
      else keyword_loop ks line)"

definition is_section_header :: "string \<Rightarrow> bool" where
  "is_section_header line =
     (if isupper line \<and> length line < 100 then True
      else if match_numbered line then True
      else keyword_loop header_keywords line)"

text \<open>The loop of \<open>parse_sections\<close> over the lines: \<open>cur\<close> is \<open>current_section\<close>,
  \<open>secs\<close> is \<open>self.sections\<close>.\<close>

fun parse_lines :: "string list \<Rightarrow> Section \<Rightarrow> Section list \<Rightarrow> Section \<times> Section list" where
  "parse_lines [] cur secs = (cur, secs)"
| "parse_lines (l # ls) cur secs =
     (let line = strip l in
      if line = [] then parse_lines ls cur secs
      else if is_section_header line
      then parse_lines ls \<lparr>sec_title = line, sec_content = []\<rparr>
             (if sec_content cur \<noteq> [] then secs @ [cur] else secs)
      else parse_lines ls (cur\<lparr>sec_content := sec_content cur @ line @ '' ''\<rparr>) secs)"

text \<open>\<open>parse_sections\<close> returns \<open>self.sections\<close>, the \<open>sections\<close> of the state it
  leaves.\<close>

definition parse_sections :: "PDFExtractor \<Rightarrow> PDFExtractor" where
  "parse_sections ex =
     (let lines = split_char newline (text_content ex);
          (cur, secs) = parse_lines lines \<lparr>sec_title = ''Introduction'', sec_content = []\<rparr> (sections ex)
      in ex\<lparr>sections := (if sec_content cur \<noteq> [] then secs @ [cur] else secs)\<rparr>)"

section \<open>script_generator.py\<close>

record Scene =
  scene_id :: int
  title :: string
  narration :: string
  duration :: int
  image_prompt :: string
  character_action :: string

record ScriptGenerator =
  extractor :: PDFExtractor
  scenes :: "Scene list"

definition ScriptGenerator_init :: "string \<Rightarrow> ScriptGenerator" where
  "ScriptGenerator_init path = \<lparr>extractor = PDFExtractor_init path, scenes = []\<rparr>"

text \<open>The loop of \<open>_summarize_content\<close> over the first five sentences.\<close>

fun clean_sentences :: "string list \<Rightarrow> string list" where
  "clean_sentences [] = []"
| "clean_sentences (s # ss) =
     (let sentence = strip s in
      if length sentence > 20 \<and>
         \<not> list_ex (\<lambda>skip. is_substring skip (lower sentence)) [''figure'', ''table'', ''equation'']
      then sentence # clean_sentences ss
      else clean_sentences ss)"

definition summarize_content :: "string \<Rightarrow> string" where
  "summarize_content content =
     (let content1 = re_sub match_citation [] content;
          content2 = re_sub match_year_paren [] content1;
          content3 = re_sub match_et_al ''and colleagues'' content2;
          sentences = re_split_sentences content3;
          clean = clean_sentences (take 5 sentences);
          summary = join ''. '' clean;
          summary' = (if summary \<noteq> [] \<and> \<not> endswith summary ''.'' then summary @ ''.'' else summary)
      in take 300 summary')"

definition generate_image_prompt :: "string \<Rightarrow> string \<Rightarrow> string" where
  "generate_image_prompt ttl content =
     (let title_lower = lower ttl; content_lower = lower content in
      if list_ex (\<lambda>word. is_substring word title_lower) [''introduction'', ''overview'']
      then ''Modern semiconductor wafer with GaN crystals, blue and purple color scheme, high-tech laboratory setting''
      else if is_substring ''application'' title_lower
      then ''Collage of modern electronics: smartphones, 5G towers, electric vehicles, solar panels, all highlighting GaN components''
      else if is_substring ''structure'' title_lower \<or> is_substring ''architecture'' title_lower
      then ''3D visualization of GaN HEMT structure showing layers: substrate, buffer, channel, barrier, with electron flow animation''
      else if is_substring ''performance'' title_lower \<or> is_substring ''efficiency'' title_lower
      then ''Performance graphs and charts showing GaN advantages, with glowing efficiency metrics, modern data visualization''
      else if is_substring ''reliability'' title_lower
      then ''Robust electronic component undergoing stress tests, showing durability and longevity, industrial testing environment''
      else if is_substring ''biosensor'' content_lower
      then ''Medical biosensor device with GaN chip, showing biological molecule detection, clean medical tech aesthetic''
      else if is_substring ''power'' content_lower
      then ''High-power electronic systems with GaN components, showing energy flow, industrial power electronics''
      else ''Advanced GaN semiconductor chip with intricate circuit patterns, blue LED illumination, futuristic technology'')"

definition clean_word :: "string \<Rightarrow> string" where
  "clean_word word = (if isupper word \<and> length word > 3 then capitalize word else word)"

definition clean_title :: "string \<Rightarrow> string" where
  "clean_title ttl = join '' '' (map clean_word (split_ws (strip_numbering ttl)))"

definition intro_scene :: Scene where
  "intro_scene =
     \<lparr>scene_id = 1,
      title = ''Introduction to GaN Technology'',
      narration = ''Welcome to our comprehensive overview of Gallium Nitride, or GaN technology. Today, we'll explore how GaN High Electron Mobility Transistors, or HEMTs, are revolutionizing high-frequency and high-power electronics.'',
      duration = 8,
      image_prompt = ''A futuristic semiconductor chip with glowing blue circuits, representing GaN technology, modern tech aesthetic'',
      character_action = ''greeting''\<rparr>"

definition conclusion_scene :: "int \<Rightarrow> Scene" where
  "conclusion_scene sid =
     \<lparr>scene_id = sid,
      title = ''Conclusion'',
      narration = ''GaN technology represents a significant advancement in semiconductor technology, enabling faster, more efficient, and more powerful electronic devices. From 5G communications to electric vehicles, GaN HEMTs are shaping the future of electronics.'',
      duration = 8,
      image_prompt = ''A montage of modern applications: 5G towers, electric vehicles, renewable energy systems, all powered by GaN technology'',
      character_action = ''concluding''\<rparr>"

text \<open>The scene that the loop of \<open>generate_script\<close> appends for a section.\<close>

definition content_scene :: "int \<Rightarrow> Section \<Rightarrow> string \<Rightarrow> Scene" where
  "content_scene sid s summary =
     \<lparr>scene_id = sid,
      title = clean_title (sec_title s),
      narration = summary,
      duration = max 5 (int (length (split_ws summary)) div 20),
      image_prompt = generate_image_prompt (sec_title s) summary,
      character_action = ''explaining''\<rparr>"

text \<open>The loop of \<open>generate_script\<close> over \<open>sections[:10]\<close>: it threads \<open>scene_id\<close>
  and \<open>self.scenes\<close>.\<close>

fun process_sections :: "Section list \<Rightarrow> int \<Rightarrow> Scene list \<Rightarrow> int \<times> Scene list" where
  "process_sections [] sid scs = (sid, scs)"
| "process_sections (s # ss) sid scs =
     (if length (sec_content s) < 100 then process_sections ss sid scs
      else (let summary = summarize_content (sec_content s) in
            if summary = [] then process_sections ss sid scs
            else process_sections ss (sid + 1) (scs @ [content_scene sid s summary])))"

text \<open>\<open>generate_script\<close> returns \<open>self.scenes\<close>, the \<open>scenes\<close> of the state it
  leaves.\<close>

definition generate_script :: "ScriptGenerator \<Rightarrow> pdf_read \<Rightarrow> ScriptGenerator" where
  "generate_script g r =
     (let ex = parse_sections (fst (extract_text (extractor g) r));
          scs1 = scenes g @ [intro_scene];
          (sid, scs2) = process_sections (take 10 (sections ex)) 2 scs1
      in \<lparr>extractor = ex, scenes = scs2 @ [conclusion_scene sid]\<rparr>)"

record Script =
  script_title :: string
  total_duration :: int
  scene_count :: int
  script_scenes :: "Scene list"

text \<open>\<open>save_script\<close> returns the record it writes to the file, and leaves the state
  of the generator.\<close>

definition save_script :: "ScriptGenerator \<Rightarrow> pdf_read \<Rightarrow> Script \<times> ScriptGenerator" where
  "save_script g r =
     (let g' = (if scenes g = [] then generate_script g r else g)
      in (\<lparr>script_title = ''GaN Technology: A Comprehensive Overview'',
           total_duration = sum_list (map duration (scenes g')),
           scene_count = int (length (scenes g')),
           script_scenes = scenes g'\<rparr>, g'))"

section \<open>Notions used in the statements\<close>

text \<open>A section from which the loop of \<open>generate_script\<close> builds a scene: its content
  has at least 100 characters and its summary is not empty.\<close>

definition yields_scene :: "Section \<Rightarrow> bool" where
  "yields_scene s = (100 \<le> length (sec_content s) \<and> summarize_content (sec_content s) \<noteq> [])"

text \<open>The content scenes of a script: those built in the loop, which alone carry the
  action \<open>explaining\<close>.\<close>

definition content_scenes :: "Scene list \<Rightarrow> Scene list" where
  "content_scenes scs = filter (\<lambda>s. character_action s = ''explaining'') scs"

text \<open>A text of eleven sections: ten with the one-letter content \<open>b\<close>, then one whose
  content is a sentence of 106 characters.\<close>

definition long_line :: string where
  "long_line = ''Gallium nitride transistors switch faster than silicon devices and waste less energy as heat in converters''"

definition eleven_sections_text :: string where
  "eleven_sections_text =
     concat (replicate 10 (''A'' @ [newline] @ ''b'' @ [newline])) @ ''A'' @ [newline] @ long_line"

text \<open>A line of 26 sentences of two letters: as the content of a section it has 104
  characters and an empty summary.\<close>

definition short_sentences_line :: string where
  "short_sentences_line = concat (replicate 26 ''ab. '')"

text \<open>A section of a text: the header \<open>A\<close> on a line, then the content on a line.\<close>

definition titled :: "string \<Rightarrow> string" where
  "titled body = ''A'' @ [newline] @ body @ [newline]"

text \<open>A text of eleven sections. The second, the fourth and the eleventh have the
  sentence of 106 characters as content, the third has the 26 short sentences, and the
  others the one-letter content \<open>b\<close>.\<close>

definition mixed_sections_text :: string where
  "mixed_sections_text =
     titled ''b'' @ titled long_line @ titled short_sentences_line @ titled long_line
     @ concat (replicate 6 (titled ''b'')) @ ''A'' @ [newline] @ long_line"

section \<open>Character classes and the header test\<close>

lemma digit_not_space: "isspace x \<Longrightarrow> \<not> isdigit x"
  by (auto simp: isspace_def isdigit_def Let_def)

lemma capital_not_space: "is_ascii_capital c \<Longrightarrow> \<not> isspace c"
  by (auto simp: isspace_def is_ascii_capital_def Let_def)

lemma capital_isupper: "is_ascii_capital c \<Longrightarrow> char_isupper c"
  by (auto simp: char_isupper_def is_ascii_capital_def Let_def)

lemma dot_classes: "\<not> isdigit CHR ''.''" "\<not> isspace CHR ''.''"
  by (simp_all add: isdigit_def isspace_def cp_def)

lemma match_numbered_decomp:
  assumes "ds \<noteq> []" "list_all isdigit ds" "dot = [] \<or> dot = ''.''"
    "ws \<noteq> []" "list_all isspace ws" "is_ascii_capital c"
  shows "match_numbered (ds @ dot @ ws @ c # rest)"
proof -
  obtain w ws' where ws: "ws = w # ws'" using assms(4) by (cases ws) auto
  have w: "isspace w" using assms(5) ws by simp
  have nd: "\<not> isdigit w" using w by (rule digit_not_space)
  have tw: "takeWhile isdigit (ds @ dot @ ws @ c # rest) = ds"
    using assms(2,3) nd ws dot_classes by (auto simp: list_all_iff)
  have dw: "dropWhile isdigit (ds @ dot @ ws @ c # rest) = dot @ ws @ c # rest"
    using assms(2,3) nd ws dot_classes by (auto simp: list_all_iff)
  have r2: "(case dot @ ws @ c # rest of [] \<Rightarrow> [] | x # r \<Rightarrow> if x = CHR ''.'' then r else x # r)
            = ws @ c # rest"
    using assms(3) ws w dot_classes by auto
  have tws: "takeWhile isspace (ws @ c # rest) \<noteq> []"
    using ws w by simp
  have dws: "dropWhile isspace (ws @ c # rest) = c # rest"
    using assms(5,6) capital_not_space by (auto simp: list_all_iff)
  show ?thesis
    unfolding match_numbered_def Let_def dw r2 tw using assms(1,6) tws dws by simp
qed

lemma match_numbered_capital:
  assumes "match_numbered line"
  shows "\<exists>c\<in>set line. is_ascii_capital c"
proof -
  define r1 where "r1 = dropWhile isdigit line"
  define r2 where "r2 = (case r1 of [] \<Rightarrow> [] | c # r \<Rightarrow> if c = CHR ''.'' then r else c # r)"
  from assms obtain c r where cr: "dropWhile isspace r2 = c # r" "is_ascii_capital c"
    unfolding match_numbered_def Let_def r1_def r2_def by (auto split: list.splits)
  have "c \<in> set (dropWhile isspace r2)" using cr by simp
  then have "c \<in> set r2" by (rule set_dropWhileD)
  then have "c \<in> set r1" unfolding r2_def by (auto split: list.splits if_splits)
  then have "c \<in> set line" unfolding r1_def by (rule set_dropWhileD)
  with cr show ?thesis by blast
qed

lemma keyword_loop_hit:
  "keyword_loop ks line \<Longrightarrow> \<exists>k\<in>set ks. is_substring (lower k) (lower line) \<and> length line < 100"
  by (induction ks) (auto split: if_splits)

text \<open>
  Claim C7. A line that consists of one or more digits, an optional dot, one or more
  whitespace characters and then a capital letter A-Z, followed by anything, matches the
  numbered-section pattern and is classified as a section header by
  \<open>_is_section_header\<close>. The line \<open>3. Overview\<close> is the instance taken below.
\<close>

theorem numbered_line_is_header:
  assumes "line = ds @ dot @ ws @ c # rest"
    and "ds \<noteq> []" and "list_all isdigit ds"
    and "dot = [] \<or> dot = ''.''"
    and "ws \<noteq> []" and "list_all isspace ws"
    and "is_ascii_capital c"
  shows "match_numbered line \<and> is_section_header line"
  using match_numbered_decomp [OF assms(2-7), of rest] assms(1)
  by (simp add: is_section_header_def)

theorem numbered_line_is_header_witness: "is_section_header ''3. Overview''"
proof -
  have d: "list_all isdigit ''3''" by (simp add: isdigit_def cp_def)
  have s: "list_all isspace '' ''" by (simp add: isspace_def cp_def)
  have c: "is_ascii_capital CHR ''O''" by (simp add: is_ascii_capital_def cp_def)
  have "''3. Overview'' = ''3'' @ ''.'' @ '' '' @ CHR ''O'' # ''verview''" by simp
  from numbered_line_is_header [OF this _ d _ _ s c] show ?thesis by simp
qed

text \<open>
  Claim C8. A line of fewer than 100 characters that has no upper-case character and
  whose lower-cased text contains none of the lower-cased header keywords is not
  classified as a section header.
\<close>

theorem lower_case_line_not_header:
  assumes "length line < 100"
    and "\<forall>c\<in>set line. \<not> char_isupper c"
    and "\<forall>k\<in>set header_keywords. \<not> is_substring (lower k) (lower line)"
  shows "is_section_header line = False"
proof -
  have "\<not> isupper line" using assms(2) by (auto simp: isupper_def list_ex_iff)
  moreover have "\<not> match_numbered line"
    using match_numbered_capital capital_isupper assms(2) by blast
  moreover have "\<not> keyword_loop header_keywords line"
    using keyword_loop_hit assms(3) by blast
  ultimately show ?thesis by (simp add: is_section_header_def)
qed

theorem lower_case_line_not_header_witness:
  "is_section_header ''the gate oxide'' = False"
proof -
  have l: "length ''the gate oxide'' < 100" by simp
  have u: "\<forall>c\<in>set ''the gate oxide''. \<not> char_isupper c"
    by (simp add: char_isupper_def cp_def)
  have k: "\<forall>k\<in>set header_keywords. \<not> is_substring (lower k) (lower ''the gate oxide'')"
    by (simp add: header_keywords_def lower_def char_lower_def char_isupper_def cp_def startswith_def)
  from lower_case_line_not_header [OF l u k] show ?thesis .
qed

section \<open>The section splitter\<close>

lemma parse_lines_content:
  "concat (map sec_content (snd (parse_lines ls cur secs))) @ sec_content (fst (parse_lines ls cur secs))
     = concat (map sec_content secs) @ sec_content cur
       @ concat (map (\<lambda>l. l @ '' '') (filter (\<lambda>l. l \<noteq> [] \<and> \<not> is_section_header l) (map strip ls)))"
  by (induction ls arbitrary: cur secs) (simp_all add: Let_def)

lemma parse_lines_acc:
  "parse_lines ls cur secs = (fst (parse_lines ls cur []), secs @ snd (parse_lines ls cur []))"
proof (induction ls arbitrary: cur secs)
  case Nil
  show ?case by simp
next
  case (Cons l ls)
  have a: "parse_lines ls c (secs @ [cur]) =
      (fst (parse_lines ls c []), (secs @ [cur]) @ snd (parse_lines ls c []))" for c
    by (rule Cons.IH)
  have b: "parse_lines ls c [cur] =
      (fst (parse_lines ls c []), [cur] @ snd (parse_lines ls c []))" for c
    by (rule Cons.IH)
  have c: "parse_lines ls c secs =
      (fst (parse_lines ls c []), secs @ snd (parse_lines ls c []))" for c
    by (rule Cons.IH)
  show ?case
    using a b c by (simp add: Let_def)
qed

lemma parse_sections_sections:
  "sections (parse_sections ex) = sections ex @ sections (parse_sections (ex\<lparr>sections := []\<rparr>))"
proof -
  define ls where "ls = split_char newline (text_content ex)"
  define c0 where "c0 = \<lparr>sec_title = ''Introduction'', sec_content = []\<rparr>"
  have "parse_lines ls c0 (sections ex) =
      (fst (parse_lines ls c0 []), sections ex @ snd (parse_lines ls c0 []))"
    by (rule parse_lines_acc)
  then show ?thesis
    by (simp add: parse_sections_def Let_def ls_def c0_def case_prod_beta)
qed





lemma fresh_parse_content:
  "concat (map sec_content (sections (parse_sections (ex\<lparr>sections := []\<rparr>))))
     = concat (map (\<lambda>l. l @ '' '')
         (filter (\<lambda>l. l \<noteq> [] \<and> \<not> is_section_header l) (map strip (split_char newline (text_content ex)))))"
proof -
  define ls where "ls = split_char newline (text_content ex)"
  define c0 where "c0 = \<lparr>sec_title = ''Introduction'', sec_content = []\<rparr>"
  have "concat (map sec_content (snd (parse_lines ls c0 []))) @ sec_content (fst (parse_lines ls c0 []))
      = concat (map (\<lambda>l. l @ '' '') (filter (\<lambda>l. l \<noteq> [] \<and> \<not> is_section_header l) (map strip ls)))"
    using parse_lines_content [of ls c0 "[]"] by (simp add: c0_def)
  then show ?thesis
    by (auto simp: parse_sections_def Let_def ls_def c0_def case_prod_beta)
qed

lemma parse_lines_nonempty:
  "\<forall>s\<in>set secs. sec_content s \<noteq> [] \<Longrightarrow>
   \<forall>s\<in>set (snd (parse_lines ls cur secs)). sec_content s \<noteq> []"
proof (induction ls arbitrary: cur secs)
  case Nil
  then show ?case by simp
next
  case (Cons l ls)
  have a: "\<forall>s\<in>set (secs @ [cur]). sec_content s \<noteq> []" if "sec_content cur \<noteq> []"
    using that Cons.prems by simp
  show ?case
    using Cons.IH [OF Cons.prems] Cons.IH [OF a] by (simp add: Let_def)
qed

lemma fresh_parse_nonempty:
  assumes "s \<in> set (sections (parse_sections (ex\<lparr>sections := []\<rparr>)))"
  shows "sec_content s \<noteq> []"
proof -
  define ls where "ls = split_char newline (text_content ex)"
  define c0 where "c0 = \<lparr>sec_title = ''Introduction'', sec_content = []\<rparr>"
  from assms have "s \<in> set (snd (parse_lines ls c0 [])) \<or> (s = fst (parse_lines ls c0 []) \<and> sec_content s \<noteq> [])"
    by (auto simp: parse_sections_def Let_def ls_def c0_def case_prod_beta split: if_splits)
  then show ?thesis using parse_lines_nonempty [of "[]" ls c0] by auto
qed

lemma fresh_parse_empty_iff:
  "sections (parse_sections (ex\<lparr>sections := []\<rparr>)) = [] \<longleftrightarrow>
   filter (\<lambda>l. l \<noteq> [] \<and> \<not> is_section_header l) (map strip (split_char newline (text_content ex))) = []"
proof
  assume "sections (parse_sections (ex\<lparr>sections := []\<rparr>)) = []"
  then have "concat (map (\<lambda>l. l @ '' '')
      (filter (\<lambda>l. l \<noteq> [] \<and> \<not> is_section_header l) (map strip (split_char newline (text_content ex))))) = []"
    using fresh_parse_content [of ex] by simp
  then show "filter (\<lambda>l. l \<noteq> [] \<and> \<not> is_section_header l) (map strip (split_char newline (text_content ex))) = []"
    by (cases "filter (\<lambda>l. l \<noteq> [] \<and> \<not> is_section_header l) (map strip (split_char newline (text_content ex)))") simp_all
next
  assume "filter (\<lambda>l. l \<noteq> [] \<and> \<not> is_section_header l) (map strip (split_char newline (text_content ex))) = []"
  then have "concat (map sec_content (sections (parse_sections (ex\<lparr>sections := []\<rparr>)))) = []"
    using fresh_parse_content [of ex] by simp
  then have "\<forall>s\<in>set (sections (parse_sections (ex\<lparr>sections := []\<rparr>))). sec_content s = []"
    by simp
  then show "sections (parse_sections (ex\<lparr>sections := []\<rparr>)) = []"
    using fresh_parse_nonempty [of _ ex]
    by (cases "sections (parse_sections (ex\<lparr>sections := []\<rparr>))") auto
qed

text \<open>
  Claim C2. For every text, the contents of the sections that \<open>parse_sections\<close>
  returns on an extractor without earlier sections, concatenated in order, are the lines
  of the text that are neither blank nor headers, each stripped and followed by one
  space, in their order in the text.
\<close>

theorem parse_sections_content:
  "concat (map sec_content (sections (parse_sections \<lparr>pdf_path = p, text_content = t, sections = []\<rparr>)))
     = concat (map (\<lambda>l. l @ '' '')
         (filter (\<lambda>l. l \<noteq> [] \<and> \<not> is_section_header l) (map strip (split_char newline t))))"
proof -
  define ls where "ls = split_char newline t"
  define c0 where "c0 = \<lparr>sec_title = ''Introduction'', sec_content = []\<rparr>"
  have "concat (map sec_content (snd (parse_lines ls c0 []))) @ sec_content (fst (parse_lines ls c0 []))
      = concat (map (\<lambda>l. l @ '' '') (filter (\<lambda>l. l \<noteq> [] \<and> \<not> is_section_header l) (map strip ls)))"
    using parse_lines_content [of ls c0 "[]"] by (simp add: c0_def)
  then show ?thesis
    by (auto simp: parse_sections_def Let_def ls_def c0_def case_prod_beta)
qed

text \<open>
  An instance: a content line, a blank line, a numbered header and a second content
  line.
\<close>

theorem parse_sections_content_witness:
  "concat (map sec_content (sections (parse_sections
      \<lparr>pdf_path = ''GaN Overview.pdf'',
       text_content = ''ab'' @ [newline] @ ''  '' @ [newline] @ ''2 Scope'' @ [newline] @ '' cd '',
       sections = []\<rparr>))) = ''ab cd ''"
  unfolding parse_sections_content by code_simp

section \<open>The loop over the sections\<close>

lemma process_sections_acc:
  "process_sections ss sid scs =
     (fst (process_sections ss sid []), scs @ snd (process_sections ss sid []))"
proof (induction ss arbitrary: sid scs)
  case Nil
  show ?case by simp
next
  case (Cons s ss)
  define x where "x = content_scene sid s (summarize_content (sec_content s))"
  have a: "process_sections ss (sid + 1) (scs @ [x]) =
      (fst (process_sections ss (sid + 1) []), (scs @ [x]) @ snd (process_sections ss (sid + 1) []))"
    by (rule Cons.IH)
  have b: "process_sections ss (sid + 1) [x] =
      (fst (process_sections ss (sid + 1) []), [x] @ snd (process_sections ss (sid + 1) []))"
    by (rule Cons.IH)
  have c: "process_sections ss sid scs =
      (fst (process_sections ss sid []), scs @ snd (process_sections ss sid []))"
    by (rule Cons.IH)
  show ?case
    using a b c by (simp add: Let_def x_def)
qed

lemma process_sections_fst:
  "fst (process_sections ss sid scs) = sid + int (length (filter yields_scene ss))"
  by (induction ss arbitrary: sid scs) (simp_all add: Let_def yields_scene_def)

lemma process_sections_length:
  "length (snd (process_sections ss sid scs)) = length scs + length (filter yields_scene ss)"
  by (induction ss arbitrary: sid scs) (simp_all add: Let_def yields_scene_def)

lemma process_sections_nth:
  "i < length (filter yields_scene ss) \<Longrightarrow>
   scene_id (snd (process_sections ss sid scs) ! (length scs + i)) = sid + int i"
proof (induction ss arbitrary: sid scs i)
  case Nil
  then show ?case by simp
next
  case (Cons s ss)
  show ?case
  proof (cases "yields_scene s")
    case False
    then have "process_sections (s # ss) sid scs = process_sections ss sid scs"
      by (auto simp: yields_scene_def Let_def)
    moreover have "i < length (filter yields_scene ss)" using Cons.prems False by simp
    ultimately show ?thesis using Cons.IH by simp
  next
    case True
    define x where "x = content_scene sid s (summarize_content (sec_content s))"
    have step: "process_sections (s # ss) sid scs = process_sections ss (sid + 1) (scs @ [x])"
      using True by (auto simp: yields_scene_def Let_def x_def)
    show ?thesis
    proof (cases i)
      case 0
      have "snd (process_sections ss (sid + 1) (scs @ [x])) ! length scs = x"
        by (subst process_sections_acc) (simp add: nth_append)
      then show ?thesis using 0 step by (simp add: x_def content_scene_def)
    next
      case (Suc j)
      then have "j < length (filter yields_scene ss)" using Cons.prems True by simp
      from Cons.IH [OF this, of "sid + 1" "scs @ [x]"] show ?thesis
        using Suc step by simp
    qed
  qed
qed

lemma process_sections_scene:
  "x \<in> set (snd (process_sections ss sid scs)) \<Longrightarrow> x \<notin> set scs \<Longrightarrow>
   5 \<le> duration x \<and> length (narration x) \<le> 300 \<and> character_action x = ''explaining''"
proof (induction ss arbitrary: sid scs)
  case Nil
  then show ?case by simp
next
  case (Cons s ss)
  show ?case
  proof (cases "yields_scene s")
    case False
    then have "process_sections (s # ss) sid scs = process_sections ss sid scs"
      by (auto simp: yields_scene_def Let_def)
    then show ?thesis using Cons by simp
  next
    case True
    define y where "y = content_scene sid s (summarize_content (sec_content s))"
    have step: "process_sections (s # ss) sid scs = process_sections ss (sid + 1) (scs @ [y])"
      using True by (auto simp: yields_scene_def Let_def y_def)
    have y: "5 \<le> duration y \<and> length (narration y) \<le> 300 \<and> character_action y = ''explaining''"
      by (simp add: y_def content_scene_def summarize_content_def Let_def)
    show ?thesis
    proof (cases "x = y")
      case True
      then show ?thesis using y by simp
    next
      case False
      then have "x \<notin> set (scs @ [y])" using Cons.prems(2) by simp
      moreover have "x \<in> set (snd (process_sections ss (sid + 1) (scs @ [y])))"
        using Cons.prems(1) step by simp
      ultimately show ?thesis by (rule Cons.IH [rotated])
    qed
  qed
qed

lemma process_sections_narration:
  "map narration (snd (process_sections ss sid scs)) =
     map narration scs @ map (\<lambda>s. summarize_content (sec_content s)) (filter yields_scene ss)"
  by (induction ss arbitrary: sid scs) (simp_all add: Let_def yields_scene_def content_scene_def)

lemma process_sections_ids:
  "map scene_id (snd (process_sections ss sid [])) =
     map (\<lambda>i. sid + int i) [0..<length (filter yields_scene ss)]"
proof (rule nth_equalityI)
  show "length (map scene_id (snd (process_sections ss sid []))) =
      length (map (\<lambda>i. sid + int i) [0..<length (filter yields_scene ss)])"
    by (simp add: process_sections_length)
next
  fix i assume "i < length (map scene_id (snd (process_sections ss sid [])))"
  then have i: "i < length (filter yields_scene ss)" by (simp add: process_sections_length)
  then have "scene_id (snd (process_sections ss sid []) ! i) = sid + int i"
    using process_sections_nth [of i ss sid "[]"] by simp
  then show "map scene_id (snd (process_sections ss sid [])) ! i =
      map (\<lambda>i. sid + int i) [0..<length (filter yields_scene ss)] ! i"
    using i by (simp add: process_sections_length)
qed

lemma generate_script_scenes:
  "scenes (generate_script g r) =
     scenes g @ intro_scene #
       snd (process_sections (take 10 (sections (parse_sections (fst (extract_text (extractor g) r))))) 2 [])
       @ [conclusion_scene (2 + int (length (filter yields_scene
            (take 10 (sections (parse_sections (fst (extract_text (extractor g) r))))))))]"
proof -
  define S where "S = take 10 (sections (parse_sections (fst (extract_text (extractor g) r))))"
  have "process_sections S 2 (scenes g @ [intro_scene]) =
      (2 + int (length (filter yields_scene S)), (scenes g @ [intro_scene]) @ snd (process_sections S 2 []))"
    using process_sections_acc [of S 2 "scenes g @ [intro_scene]"] process_sections_fst [of S 2 "[]"]
    by simp
  then show ?thesis
    by (simp add: generate_script_def Let_def S_def)
qed

lemma generate_script_extractor:
  "extractor (generate_script g r) = parse_sections (fst (extract_text (extractor g) r))"
  by (simp add: generate_script_def Let_def split: prod.splits)

lemma generate_script_length:
  "length (scenes (generate_script g r)) =
     length (scenes g) + 2 + length (filter yields_scene
       (take 10 (sections (parse_sections (fst (extract_text (extractor g) r))))))"
  by (simp add: generate_script_scenes process_sections_length)

lemma fixed_scenes_bounds:
  "duration intro_scene = 8" "length (narration intro_scene) \<le> 300"
  "character_action intro_scene = ''greeting''" "scene_id intro_scene = 1"
  "duration (conclusion_scene k) = 8" "length (narration (conclusion_scene k)) \<le> 300"
  "character_action (conclusion_scene k) = ''concluding''" "scene_id (conclusion_scene k) = k"
  by (simp_all add: intro_scene_def conclusion_scene_def)

lemma content_scenes_fresh:
  "content_scenes (intro_scene # snd (process_sections ss sid []) @ [conclusion_scene k])
     = snd (process_sections ss sid [])"
proof -
  have "\<forall>x\<in>set (snd (process_sections ss sid [])). character_action x = ''explaining''"
    using process_sections_scene [of _ ss sid "[]"] by simp
  then have "filter (\<lambda>s. character_action s = ''explaining'') (snd (process_sections ss sid []))
      = snd (process_sections ss sid [])"
    by (simp add: filter_id_conv)
  then show ?thesis
    by (simp add: content_scenes_def fixed_scenes_bounds)
qed

lemma fresh_content_scenes:
  assumes "scenes g = []"
  shows "content_scenes (scenes (generate_script g r)) =
     snd (process_sections (take 10 (sections (extractor (generate_script g r)))) 2 [])"
proof -
  define S where "S = take 10 (sections (parse_sections (fst (extract_text (extractor g) r))))"
  have "scenes (generate_script g r) =
      intro_scene # snd (process_sections S 2 []) @ [conclusion_scene (2 + int (length (filter yields_scene S)))]"
    using assms by (simp add: generate_script_scenes S_def)
  then show ?thesis
    by (simp add: content_scenes_fresh generate_script_extractor S_def)
qed

lemma fresh_content_scene_count:
  assumes "scenes g = []"
  shows "length (content_scenes (scenes (generate_script g r))) =
           length (filter yields_scene (take 10 (sections (extractor (generate_script g r)))))
         \<and> length (content_scenes (scenes (generate_script g r))) \<le> 10"
proof -
  define S where "S = take 10 (sections (parse_sections (fst (extract_text (extractor g) r))))"
  have "scenes (generate_script g r) =
      intro_scene # snd (process_sections S 2 []) @ [conclusion_scene (2 + int (length (filter yields_scene S)))]"
    using assms by (simp add: generate_script_scenes S_def)
  then have "length (content_scenes (scenes (generate_script g r))) = length (filter yields_scene S)"
    by (simp add: content_scenes_fresh process_sections_length)
  moreover have "length (filter yields_scene S) \<le> length S" by (rule length_filter_le)
  moreover have "length S \<le> 10" by (simp add: S_def)
  ultimately show ?thesis
    by (simp add: generate_script_extractor S_def)
qed

lemma fresh_script_scene_bounds:
  assumes "scenes g = []"
  shows "\<forall>s\<in>set (scenes (generate_script g r)). 5 \<le> duration s \<and> length (narration s) \<le> 300"
proof
  fix s assume s: "s \<in> set (scenes (generate_script g r))"
  define S where "S = take 10 (sections (parse_sections (fst (extract_text (extractor g) r))))"
  have "scenes (generate_script g r) =
      intro_scene # snd (process_sections S 2 []) @ [conclusion_scene (2 + int (length (filter yields_scene S)))]"
    using assms by (simp add: generate_script_scenes S_def)
  with s consider "s = intro_scene" | "s \<in> set (snd (process_sections S 2 []))"
    | "s = conclusion_scene (2 + int (length (filter yields_scene S)))"
    by auto
  then show "5 \<le> duration s \<and> length (narration s) \<le> 300"
  proof cases
    case 1
    then show ?thesis by (simp add: fixed_scenes_bounds)
  next
    case 2
    then show ?thesis using process_sections_scene [of s S 2 "[]"] by simp
  next
    case 3
    then show ?thesis by (simp add: fixed_scenes_bounds)
  qed
qed

lemma fresh_batch_shape:
  assumes "scenes g = []"
  shows "scenes (generate_script g r) =
     intro_scene # content_scenes (scenes (generate_script g r))
       @ [conclusion_scene (int (length (scenes (generate_script g r))))]"
proof -
  define S where "S = take 10 (sections (parse_sections (fst (extract_text (extractor g) r))))"
  have s: "scenes (generate_script g r) =
      intro_scene # snd (process_sections S 2 []) @ [conclusion_scene (2 + int (length (filter yields_scene S)))]"
    using assms by (simp add: generate_script_scenes S_def)
  show ?thesis
    unfolding s content_scenes_fresh by (simp add: process_sections_length)
qed


section \<open>Sample documents\<close>

lemma long_line_summary: "summarize_content (long_line @ '' '') = long_line @ ''.''"
  by code_simp

lemma long_line_yields: "yields_scene \<lparr>sec_title = t, sec_content = long_line @ '' ''\<rparr>"
  by (simp add: yields_scene_def long_line_summary) (simp add: long_line_def)

lemma short_not_yields: "\<not> yields_scene \<lparr>sec_title = t, sec_content = ''b ''\<rparr>"
  by (simp add: yields_scene_def)

lemma one_section_parsed:
  "sections (parse_sections (fst (extract_text (PDFExtractor_init ''GaN Overview.pdf'') (Pages [long_line]))))
     = [\<lparr>sec_title = ''Introduction'', sec_content = long_line @ '' ''\<rparr>]"
  by code_simp

lemma eleven_sections_parsed:
  "sections (parse_sections (fst (extract_text (PDFExtractor_init ''GaN Overview.pdf'') (Pages [eleven_sections_text]))))
     = replicate 10 \<lparr>sec_title = ''A'', sec_content = ''b ''\<rparr>
       @ [\<lparr>sec_title = ''A'', sec_content = long_line @ '' ''\<rparr>]"
  by code_simp

lemma one_section_script_length:
  "length (scenes (generate_script (ScriptGenerator_init ''GaN Overview.pdf'') (Pages [long_line]))) = 3"
  unfolding generate_script_length
  by (simp add: ScriptGenerator_init_def one_section_parsed long_line_yields)

lemma mixed_sections_parsed:
  "sections (parse_sections (fst (extract_text (PDFExtractor_init ''GaN Overview.pdf'') (Pages [mixed_sections_text]))))
     = [\<lparr>sec_title = ''A'', sec_content = ''b ''\<rparr>,
        \<lparr>sec_title = ''A'', sec_content = long_line @ '' ''\<rparr>,
        \<lparr>sec_title = ''A'', sec_content = short_sentences_line\<rparr>,
        \<lparr>sec_title = ''A'', sec_content = long_line @ '' ''\<rparr>]
       @ replicate 6 \<lparr>sec_title = ''A'', sec_content = ''b ''\<rparr>
       @ [\<lparr>sec_title = ''A'', sec_content = long_line @ '' ''\<rparr>]"
  by code_simp

lemma short_sentences_summary: "summarize_content short_sentences_line = []"
  by code_simp

lemma short_sentences_not_yields:
  "\<not> yields_scene \<lparr>sec_title = t, sec_content = short_sentences_line\<rparr>"
  by (simp add: yields_scene_def short_sentences_summary)

lemma long_line_words: "length (split_ws (long_line @ ''.'')) = 16"
  by code_simp

lemma one_section_scenes:
  "scenes (generate_script (ScriptGenerator_init ''GaN Overview.pdf'') (Pages [long_line])) =
     [intro_scene,
      content_scene 2 \<lparr>sec_title = ''Introduction'', sec_content = long_line @ '' ''\<rparr> (long_line @ ''.''),
      conclusion_scene 3]"
proof -
  have "length (long_line @ '' '') \<ge> 100" by (simp add: long_line_def)
  moreover have "long_line @ ''.'' \<noteq> []" by simp
  ultimately show ?thesis
    unfolding generate_script_scenes
    by (simp add: ScriptGenerator_init_def one_section_parsed long_line_yields long_line_summary Let_def)
qed

lemma one_section_durations:
  "map duration (scenes (generate_script (ScriptGenerator_init ''GaN Overview.pdf'') (Pages [long_line])))
     = [8, 5, 8]"
  unfolding one_section_scenes
  by (simp add: fixed_scenes_bounds content_scene_def long_line_words)

lemma two_section_text_parsed:
  "sections (parse_sections \<lparr>pdf_path = ''GaN Overview.pdf'',
      text_content = ''ab'' @ [newline] @ ''2 Scope'' @ [newline] @ ''cd'', sections = []\<rparr>)
   = [\<lparr>sec_title = ''Introduction'', sec_content = ''ab ''\<rparr>,
      \<lparr>sec_title = ''2 Scope'', sec_content = ''cd ''\<rparr>]"
  by code_simp

section \<open>The generated script\<close>

text \<open>
  Claim C1, as the code has it. \<open>generate_script\<close> looks at the first 10 sections
  only. Called with no earlier scenes, it builds one content scene for each of those
  sections whose content has at least 100 characters and whose summary is not empty, in
  their order: the number of content scenes is the number of such sections among the
  first 10, and at most 10; their narrations are the summaries of those sections; and
  their ids are 2, 3 and so on without a gap, so that a section that is skipped uses
  no scene id.
\<close>

theorem content_scene_count:
  assumes "scenes g = []"
  shows "length (content_scenes (scenes (generate_script g r))) =
           length (filter yields_scene (take 10 (sections (extractor (generate_script g r)))))
         \<and> length (content_scenes (scenes (generate_script g r))) \<le> 10
         \<and> map scene_id (content_scenes (scenes (generate_script g r))) =
             map (\<lambda>i. 2 + int i) [0..<length (content_scenes (scenes (generate_script g r)))]
         \<and> map narration (content_scenes (scenes (generate_script g r))) =
             map (\<lambda>s. summarize_content (sec_content s))
               (filter yields_scene (take 10 (sections (extractor (generate_script g r)))))"
proof -
  define S where "S = take 10 (sections (extractor (generate_script g r)))"
  have cs: "content_scenes (scenes (generate_script g r)) = snd (process_sections S 2 [])"
    using assms unfolding S_def by (rule fresh_content_scenes)
  have len: "length (snd (process_sections S 2 [])) = length (filter yields_scene S)"
    by (simp add: process_sections_length)
  have "length S \<le> 10" by (simp add: S_def)
  then have le: "length (filter yields_scene S) \<le> 10"
    using length_filter_le [of yields_scene S] by linarith
  have ids: "map scene_id (snd (process_sections S 2 [])) =
      map (\<lambda>i. 2 + int i) [0..<length (filter yields_scene S)]"
    by (rule process_sections_ids)
  have nar: "map narration (snd (process_sections S 2 [])) =
      map (\<lambda>s. summarize_content (sec_content s)) (filter yields_scene S)"
    by (simp add: process_sections_narration)
  show ?thesis
    unfolding cs S_def [symmetric] using len le ids nar by simp
qed

text \<open>
  A document of eleven sections, of which the second and the fourth give a scene, the
  first is too short, the third has an empty summary, and the eleventh would give a
  scene but is beyond the first 10: two content scenes, with ids 2 and 3.
\<close>

theorem content_scene_count_witness:
  "length (content_scenes (scenes (generate_script (ScriptGenerator_init ''GaN Overview.pdf'')
      (Pages [mixed_sections_text])))) = 2
   \<and> map scene_id (content_scenes (scenes (generate_script (ScriptGenerator_init ''GaN Overview.pdf'')
      (Pages [mixed_sections_text])))) = [2, 3]
   \<and> map narration (content_scenes (scenes (generate_script (ScriptGenerator_init ''GaN Overview.pdf'')
      (Pages [mixed_sections_text])))) = [long_line @ ''.'', long_line @ ''.'']
   \<and> length (filter yields_scene (sections (extractor (generate_script
      (ScriptGenerator_init ''GaN Overview.pdf'') (Pages [mixed_sections_text]))))) = 3"
proof -
  let ?g = "generate_script (ScriptGenerator_init ''GaN Overview.pdf'') (Pages [mixed_sections_text])"
  have "scenes (ScriptGenerator_init ''GaN Overview.pdf'') = []"
    by (simp add: ScriptGenerator_init_def)
  from content_scene_count [OF this, of "Pages [mixed_sections_text]"]
  have len: "length (content_scenes (scenes ?g)) = length (filter yields_scene (take 10 (sections (extractor ?g))))"
    and ids: "map scene_id (content_scenes (scenes ?g)) = map (\<lambda>i. 2 + int i) [0..<length (content_scenes (scenes ?g))]"
    and nar: "map narration (content_scenes (scenes ?g)) =
       map (\<lambda>s. summarize_content (sec_content s)) (filter yields_scene (take 10 (sections (extractor ?g))))"
    by simp_all
  have secs: "sections (extractor ?g) =
      [\<lparr>sec_title = ''A'', sec_content = ''b ''\<rparr>,
       \<lparr>sec_title = ''A'', sec_content = long_line @ '' ''\<rparr>,
       \<lparr>sec_title = ''A'', sec_content = short_sentences_line\<rparr>,
       \<lparr>sec_title = ''A'', sec_content = long_line @ '' ''\<rparr>]
      @ replicate 6 \<lparr>sec_title = ''A'', sec_content = ''b ''\<rparr>
      @ [\<lparr>sec_title = ''A'', sec_content = long_line @ '' ''\<rparr>]"
    by (simp add: generate_script_extractor ScriptGenerator_init_def mixed_sections_parsed)
  have first10: "filter yields_scene (take 10 (sections (extractor ?g))) =
      [\<lparr>sec_title = ''A'', sec_content = long_line @ '' ''\<rparr>,
       \<lparr>sec_title = ''A'', sec_content = long_line @ '' ''\<rparr>]"
    unfolding secs by (simp add: long_line_yields short_not_yields short_sentences_not_yields)
  have all: "length (filter yields_scene (sections (extractor ?g))) = 3"
    unfolding secs by (simp add: long_line_yields short_not_yields short_sentences_not_yields)
  have l2: "length (content_scenes (scenes ?g)) = 2"
    using len first10 by simp
  have "[0..<2] = [0, Suc 0]" by (simp add: numeral_2_eq_2)
  then have i2: "map scene_id (content_scenes (scenes ?g)) = [2, 3]"
    using ids l2 by simp
  have n2: "map narration (content_scenes (scenes ?g)) = [long_line @ ''.'', long_line @ ''.'']"
    using nar first10 by (simp add: long_line_summary)
  show ?thesis using l2 i2 n2 all by simp
qed

text \<open>
  Claim C1 as stated fails: in a document of eleven sections of which only the last
  has a content of 100 characters or more, no content scene is built, while the minimum
  of 10 and the number of sections that could give a scene is 1.
\<close>

theorem content_scene_count_counterexample:
  "length (content_scenes (scenes (generate_script (ScriptGenerator_init ''GaN Overview.pdf'')
       (Pages [eleven_sections_text])))) = 0
   \<and> min 10 (length (filter yields_scene (sections (extractor (generate_script
       (ScriptGenerator_init ''GaN Overview.pdf'') (Pages [eleven_sections_text])))))) = 1"
proof -
  have "scenes (ScriptGenerator_init ''GaN Overview.pdf'') = []"
    by (simp add: ScriptGenerator_init_def)
  from fresh_content_scene_count [OF this, of "Pages [eleven_sections_text]"] show ?thesis
    by (simp add: generate_script_extractor ScriptGenerator_init_def eleven_sections_parsed
        long_line_yields short_not_yields)
qed

text \<open>
  Claim C3. Every scene of the script that \<open>generate_script\<close> builds from no
  earlier scenes (the introduction, the content scenes and the conclusion) has a duration
  of at least 5 and a narration of at most 300 characters.
\<close>

theorem scene_bounds:
  assumes "scenes g = []"
  shows "\<forall>s\<in>set (scenes (generate_script g r)). 5 \<le> duration s \<and> length (narration s) \<le> 300"
  using assms by (rule fresh_script_scene_bounds)

theorem scene_bounds_witness:
  "list_all (\<lambda>s. 5 \<le> duration s \<and> length (narration s) \<le> 300)
     (scenes (generate_script (ScriptGenerator_init ''GaN Overview.pdf'') (Pages [long_line])))
   \<and> length (scenes (generate_script (ScriptGenerator_init ''GaN Overview.pdf'') (Pages [long_line]))) = 3"
proof -
  have "scenes (ScriptGenerator_init ''GaN Overview.pdf'') = []"
    by (simp add: ScriptGenerator_init_def)
  from scene_bounds [OF this, of "Pages [long_line]"] show ?thesis
    by (simp add: list_all_iff one_section_script_length)
qed




text \<open>
  Claim C5. The record that \<open>save_script\<close> writes holds the scenes of the generator
  (those that \<open>generate_script\<close> builds first, when the generator has none), its
  \<open>total_duration\<close> is the sum of the durations of these scenes and its
  \<open>scene_count\<close> is their number.
\<close>

theorem save_script_totals:
  "script_scenes (fst (save_script g r)) = (if scenes g = [] then scenes (generate_script g r) else scenes g)
   \<and> total_duration (fst (save_script g r)) =
       sum_list (map duration (if scenes g = [] then scenes (generate_script g r) else scenes g))
   \<and> scene_count (fst (save_script g r)) =
       int (length (if scenes g = [] then scenes (generate_script g r) else scenes g))
   \<and> scenes (snd (save_script g r)) = (if scenes g = [] then scenes (generate_script g r) else scenes g)"
  by (simp add: save_script_def Let_def)

text \<open>
  The script of the document of one section: three scenes, of durations 8, 5 and 8.
\<close>

theorem save_script_totals_witness:
  "total_duration (fst (save_script
      (generate_script (ScriptGenerator_init ''GaN Overview.pdf'') (Pages [long_line])) (Raised []))) = 21
   \<and> scene_count (fst (save_script
      (generate_script (ScriptGenerator_init ''GaN Overview.pdf'') (Pages [long_line])) (Raised []))) = 3
   \<and> map scene_id (script_scenes (fst (save_script
      (generate_script (ScriptGenerator_init ''GaN Overview.pdf'') (Pages [long_line])) (Raised [])))) = [1, 2, 3]"
proof -
  let ?g = "generate_script (ScriptGenerator_init ''GaN Overview.pdf'') (Pages [long_line])"
  have ne: "scenes ?g \<noteq> []" unfolding one_section_scenes by simp
  have d: "sum_list (map duration (scenes ?g)) = 21" unfolding one_section_durations by simp
  have l: "length (scenes ?g) = 3" by (rule one_section_script_length)
  have i: "map scene_id (scenes ?g) = [1, 2, 3]"
    unfolding one_section_scenes by (simp add: fixed_scenes_bounds content_scene_def)
  from save_script_totals [of ?g "Raised []"] show ?thesis
    using ne d l i by simp
qed

text \<open>
  Claim C6. In the script that one call of \<open>generate_script\<close> builds from no
  earlier scenes, the scene ids are 1, 2, 3 and so on in order, hence distinct and
  strictly ascending, and every duration is positive.
\<close>

theorem scene_ids_consecutive:
  assumes "scenes g = []"
  shows "map scene_id (scenes (generate_script g r)) =
           map (\<lambda>i. int i + 1) [0..<length (scenes (generate_script g r))]
         \<and> distinct (map scene_id (scenes (generate_script g r)))
         \<and> sorted_wrt (<) (map scene_id (scenes (generate_script g r)))
         \<and> (\<forall>s\<in>set (scenes (generate_script g r)). 0 < duration s)"
proof -
  define S where "S = take 10 (sections (parse_sections (fst (extract_text (extractor g) r))))"
  define n where "n = length (filter yields_scene S)"
  define mid where "mid = snd (process_sections S 2 [])"
  define scs where "scs = scenes (generate_script g r)"
  have scs: "scs = intro_scene # mid @ [conclusion_scene (2 + int n)]"
    using assms by (simp add: generate_script_scenes S_def n_def mid_def scs_def)
  have len_mid: "length mid = n"
    by (simp add: mid_def n_def process_sections_length)
  have mid_nth: "scene_id (mid ! i) = 2 + int i" if "i < n" for i
    using process_sections_nth [of i S 2 "[]"] that by (simp add: mid_def n_def)
  have ids: "map scene_id scs = map (\<lambda>i. int i + 1) [0..<length scs]"
  proof (rule nth_equalityI)
    show "length (map scene_id scs) = length (map (\<lambda>i. int i + 1) [0..<length scs])" by simp
  next
    fix i assume "i < length (map scene_id scs)"
    then have i: "i < n + 2" by (simp add: scs len_mid)
    consider "i = 0" | j where "i = Suc j" "j < n" | "i = Suc n" using i by (cases i) force+
    then have "scene_id (scs ! i) = int i + 1"
    proof cases
      case 1
      then show ?thesis by (simp add: scs fixed_scenes_bounds)
    next
      case 2
      then show ?thesis by (simp add: scs nth_append len_mid mid_nth)
    next
      case 3
      then show ?thesis by (simp add: scs nth_append len_mid fixed_scenes_bounds)
    qed
    moreover have li: "i < length scs" using i by (simp add: scs len_mid)
    moreover have "map scene_id scs ! i = scene_id (scs ! i)" using li by (rule nth_map)
    moreover have "map (\<lambda>i. int i + 1) [0..<length scs] ! i = int i + 1" using li by simp
    ultimately show "map scene_id scs ! i = map (\<lambda>i. int i + 1) [0..<length scs] ! i"
      by simp
  qed
  have inj: "inj_on (\<lambda>i. int i + 1) (set [0..<length scs])" by (simp add: inj_on_def)
  have dist: "distinct (map scene_id scs)"
    unfolding ids using inj by (simp add: distinct_map)
  have sorted: "sorted_wrt (<) (map scene_id scs)"
    unfolding ids by (simp add: sorted_wrt_iff_nth_less)
  have dur: "\<forall>s\<in>set scs. 0 < duration s"
    using fresh_script_scene_bounds [OF assms, of r] unfolding scs_def by force
  show ?thesis using ids dist sorted dur unfolding scs_def by simp
qed

theorem scene_ids_consecutive_witness:
  "map scene_id (scenes (generate_script (ScriptGenerator_init ''GaN Overview.pdf'') (Pages [long_line])))
     = [1, 2, 3]"
proof -
  have "scenes (ScriptGenerator_init ''GaN Overview.pdf'') = []"
    by (simp add: ScriptGenerator_init_def)
  from scene_ids_consecutive [OF this, of "Pages [long_line]"] show ?thesis
    by (simp add: one_section_script_length upt_rec)
qed

text \<open>
  Claim C10. A second call of \<open>generate_script\<close> on the same generator returns the
  scenes of the first call followed by a new batch, which is what the call builds from
  no earlier scenes: the introduction, content scenes and the conclusion. The result
  differs from the first call's and its scene ids are not distinct. In the same way
  \<open>parse_sections\<close> appends to the sections it holds the sections parsed from the
  text, whose contents are the content lines of the text, so a second call returns the
  sections of the first call followed by these once more, and returns the same sections
  as the first call only when the text has no content line.
\<close>

theorem generate_script_accumulates:
  "(let g1 = generate_script g r1;
        g2 = generate_script g1 r2;
        batch = scenes (generate_script (g1\<lparr>scenes := []\<rparr>) r2)
    in scenes g2 = scenes g1 @ batch
     \<and> batch = intro_scene # content_scenes batch @ [conclusion_scene (int (length batch))]
     \<and> scenes g2 \<noteq> scenes g1
     \<and> \<not> distinct (map scene_id (scenes g2)))
   \<and> (let ex1 = parse_sections ex;
           ex2 = parse_sections ex1;
           new = sections (parse_sections (ex\<lparr>sections := []\<rparr>));
           content_lines = filter (\<lambda>l. l \<noteq> [] \<and> \<not> is_section_header l)
                             (map strip (split_char newline (text_content ex)))
       in sections ex1 = sections ex @ new
        \<and> sections ex2 = sections ex1 @ new
        \<and> concat (map sec_content new) = concat (map (\<lambda>l. l @ '' '') content_lines)
        \<and> (sections ex2 = sections ex1 \<longleftrightarrow> content_lines = []))"
proof -
  define g1 where "g1 = generate_script g r1"
  define g2 where "g2 = generate_script g1 r2"
  define batch where "batch = scenes (generate_script (g1\<lparr>scenes := []\<rparr>) r2)"
  have acc: "scenes g2 = scenes g1 @ batch"
    unfolding g2_def batch_def by (simp add: generate_script_scenes)
  have shape: "batch = intro_scene # content_scenes batch @ [conclusion_scene (int (length batch))]"
    unfolding batch_def by (rule fresh_batch_shape) simp
  have ne: "scenes g2 \<noteq> scenes g1"
    using acc shape by (metis append_self_conv list.distinct(1))
  have i1: "intro_scene \<in> set (scenes g1)"
    unfolding g1_def by (simp add: generate_script_scenes)
  have i2: "intro_scene \<in> set batch"
    using shape by (metis list.set_intros(1))
  have "\<not> distinct (scenes g1 @ batch)" using i1 i2 by auto
  then have nd: "\<not> distinct (map scene_id (scenes g2))"
    unfolding acc using distinct_map by blast
  define new where "new = sections (parse_sections (ex\<lparr>sections := []\<rparr>))"
  define content_lines where "content_lines = filter (\<lambda>l. l \<noteq> [] \<and> \<not> is_section_header l)
      (map strip (split_char newline (text_content ex)))"
  have p1: "sections (parse_sections ex) = sections ex @ new"
    unfolding new_def by (rule parse_sections_sections)
  have p2: "sections (parse_sections (parse_sections ex)) = sections (parse_sections ex) @ new"
  proof -
    have "(parse_sections ex)\<lparr>sections := []\<rparr> = ex\<lparr>sections := []\<rparr>"
      by (simp add: parse_sections_def Let_def case_prod_beta)
    then show ?thesis
      unfolding new_def using parse_sections_sections [of "parse_sections ex"] by simp
  qed
  have p3: "concat (map sec_content new) = concat (map (\<lambda>l. l @ '' '') content_lines)"
    unfolding new_def content_lines_def by (rule fresh_parse_content)
  have "new = [] \<longleftrightarrow> content_lines = []"
    unfolding new_def content_lines_def by (rule fresh_parse_empty_iff)
  then have p4: "sections (parse_sections (parse_sections ex)) = sections (parse_sections ex)
      \<longleftrightarrow> content_lines = []"
    using p2 by simp
  have A: "scenes g2 = scenes g1 @ batch
     \<and> batch = intro_scene # content_scenes batch @ [conclusion_scene (int (length batch))]
     \<and> scenes g2 \<noteq> scenes g1
     \<and> \<not> distinct (map scene_id (scenes g2))"
    by (intro conjI) (rule acc, rule shape, rule ne, rule nd)
  have B: "sections (parse_sections ex) = sections ex @ new
     \<and> sections (parse_sections (parse_sections ex)) = sections (parse_sections ex) @ new
     \<and> concat (map sec_content new) = concat (map (\<lambda>l. l @ '' '') content_lines)
     \<and> (sections (parse_sections (parse_sections ex)) = sections (parse_sections ex)
          \<longleftrightarrow> content_lines = [])"
    by (intro conjI) (rule p1, rule p2, rule p3, rule p4)
  from A B show ?thesis
    unfolding Let_def g1_def g2_def batch_def new_def content_lines_def by (rule conjI)
qed

text \<open>
  After a document of one section, a second call returns scenes with the ids
  1, 2, 3, 1, 2, 3, 4; and a text of two sections parsed twice gives four sections.
\<close>

theorem generate_script_accumulates_witness:
  "map scene_id (scenes (generate_script
      (generate_script (ScriptGenerator_init ''GaN Overview.pdf'') (Pages [long_line])) (Raised [])))
     = [1, 2, 3, 1, 2, 3, 4]
   \<and> sections (parse_sections (parse_sections \<lparr>pdf_path = ''GaN Overview.pdf'',
        text_content = ''ab'' @ [newline] @ ''2 Scope'' @ [newline] @ ''cd'', sections = []\<rparr>))
     = [\<lparr>sec_title = ''Introduction'', sec_content = ''ab ''\<rparr>,
        \<lparr>sec_title = ''2 Scope'', sec_content = ''cd ''\<rparr>,
        \<lparr>sec_title = ''Introduction'', sec_content = ''ab ''\<rparr>,
        \<lparr>sec_title = ''2 Scope'', sec_content = ''cd ''\<rparr>]"
proof -
  let ?g0 = "ScriptGenerator_init ''GaN Overview.pdf''"
  let ?g1 = "generate_script ?g0 (Pages [long_line])"
  let ?S = "\<lparr>sec_title = ''Introduction'', sec_content = long_line @ '' ''\<rparr>"
  let ?ex = "\<lparr>pdf_path = ''GaN Overview.pdf'',
      text_content = ''ab'' @ [newline] @ ''2 Scope'' @ [newline] @ ''cd'', sections = []\<rparr>"
  note inst = generate_script_accumulates [of ?g0 "Pages [long_line]" "Raised []" ?ex, unfolded Let_def]
  have acc: "scenes (generate_script ?g1 (Raised [])) =
      scenes ?g1 @ scenes (generate_script (?g1\<lparr>scenes := []\<rparr>) (Raised []))"
    by (rule inst [THEN conjunct1, THEN conjunct1])
  have shape: "scenes (generate_script (?g1\<lparr>scenes := []\<rparr>) (Raised [])) =
      intro_scene # content_scenes (scenes (generate_script (?g1\<lparr>scenes := []\<rparr>) (Raised [])))
      @ [conclusion_scene (int (length (scenes (generate_script (?g1\<lparr>scenes := []\<rparr>) (Raised [])))))]"
    by (rule inst [THEN conjunct1, THEN conjunct2, THEN conjunct1])
  have p2: "sections (parse_sections (parse_sections ?ex)) =
      sections (parse_sections ?ex) @ sections (parse_sections (?ex\<lparr>sections := []\<rparr>))"
    by (rule inst [THEN conjunct2, THEN conjunct2, THEN conjunct1])
  have x1: "extractor ?g1 = parse_sections (fst (extract_text (PDFExtractor_init ''GaN Overview.pdf'') (Pages [long_line])))"
    by (simp add: generate_script_extractor ScriptGenerator_init_def)
  have s1: "sections (extractor ?g1) = [?S]"
    unfolding x1 by (rule one_section_parsed)
  have "fst (extract_text (extractor ?g1) (Raised [])) = extractor ?g1"
    by (simp add: extract_text_def)
  then have "sections (parse_sections (fst (extract_text (extractor (?g1\<lparr>scenes := []\<rparr>)) (Raised []))))
      = sections (extractor ?g1) @ sections (parse_sections ((extractor ?g1)\<lparr>sections := []\<rparr>))"
    using parse_sections_sections [of "extractor ?g1"] by simp
  moreover have "(extractor ?g1)\<lparr>sections := []\<rparr> =
      (fst (extract_text (PDFExtractor_init ''GaN Overview.pdf'') (Pages [long_line])))\<lparr>sections := []\<rparr>"
    unfolding x1 by (simp add: parse_sections_def Let_def case_prod_beta)
  moreover have "(fst (extract_text (PDFExtractor_init ''GaN Overview.pdf'') (Pages [long_line])))\<lparr>sections := []\<rparr>
      = fst (extract_text (PDFExtractor_init ''GaN Overview.pdf'') (Pages [long_line]))"
    by (simp add: extract_text_def PDFExtractor_init_def Let_def)
  ultimately have s2: "sections (parse_sections (fst (extract_text (extractor (?g1\<lparr>scenes := []\<rparr>)) (Raised []))))
      = [?S, ?S]"
    using s1 one_section_parsed by simp
  have len: "length (scenes (generate_script (?g1\<lparr>scenes := []\<rparr>) (Raised []))) = 4"
    unfolding generate_script_length s2 by (simp add: long_line_yields)
  have "content_scenes (scenes (generate_script (?g1\<lparr>scenes := []\<rparr>) (Raised []))) =
      snd (process_sections (take 10 (sections (extractor (generate_script (?g1\<lparr>scenes := []\<rparr>) (Raised []))))) 2 [])"
    by (rule fresh_content_scenes) simp
  then have cse: "content_scenes (scenes (generate_script (?g1\<lparr>scenes := []\<rparr>) (Raised []))) =
      snd (process_sections [?S, ?S] 2 [])"
    unfolding generate_script_extractor s2 by simp
  have "[0..<2] = [0, Suc 0]" by (simp add: numeral_2_eq_2)
  then have cs: "map scene_id (content_scenes (scenes (generate_script (?g1\<lparr>scenes := []\<rparr>) (Raised [])))) = [2, 3]"
    unfolding cse using process_sections_ids [of "[?S, ?S]" 2] by (simp add: long_line_yields)
  have b: "map scene_id (scenes (generate_script (?g1\<lparr>scenes := []\<rparr>) (Raised []))) = [1, 2, 3, 4]"
    by (subst shape) (simp add: cs len fixed_scenes_bounds)
  have a: "map scene_id (scenes ?g1) = [1, 2, 3]"
    unfolding one_section_scenes by (simp add: fixed_scenes_bounds content_scene_def)
  have ids: "map scene_id (scenes (generate_script ?g1 (Raised []))) = [1, 2, 3, 1, 2, 3, 4]"
    unfolding acc using a b by simp
  have "?ex\<lparr>sections := []\<rparr> = ?ex" by simp
  then have secs: "sections (parse_sections (parse_sections ?ex)) =
      sections (parse_sections ?ex) @ sections (parse_sections ?ex)"
    using p2 by simp
  show ?thesis
    using ids secs unfolding two_section_text_parsed by simp
qed

end
